theory Spec2Isabelle
  imports Main "HOL-Library.FSet" "HOL-Library.Word"
begin

section \<open>The Tailscale Test Agent (cmd/tta/tta.go)\<close>

text \<open>
  The agent dials out to the test driver, hands each dialed connection to an HTTP
  server through a channel that plays the role of a listener, and dials again when
  the server's connection-state callback reports that no connection is in state
  \<open>StateNew\<close> any more. This theory embeds the parts of \<open>tta.go\<close> that carry this
  mechanism (the callback, the two channels, the loop at the end of \<open>main\<close>,
  \<open>chanListener.Accept\<close>), the \<open>/fw\<close> handler and the log buffer.
\<close>

subsection \<open>Go channels\<close>

text \<open>
  A buffered channel that is never closed is the list of the values it holds, oldest
  first, together with its capacity. \<open>send\<close> is the statement \<open>ch <- v\<close>: the
  result \<open>None\<close> says that the statement blocks. \<open>select_send\<close> is
  \<open>select { case ch <- v: default: }\<close>, which never blocks. \<open>recv\<close> is \<open><-ch\<close>.
\<close>

definition send :: "nat \<Rightarrow> 'a \<Rightarrow> 'a list \<Rightarrow> 'a list option" where
  "send cap v q = (if length q < cap then Some (q @ [v]) else None)"

definition select_send :: "nat \<Rightarrow> 'a \<Rightarrow> 'a list \<Rightarrow> 'a list" where
  "select_send cap v q = (case send cap v q of Some q' \<Rightarrow> q' | None \<Rightarrow> q)"

definition recv :: "'a list \<Rightarrow> ('a \<times> 'a list) option" where
  "recv q = (case q of [] \<Rightarrow> None | v # q' \<Rightarrow> Some (v, q'))"

text \<open>
  \<open>chanListener.Accept\<close> is written for a channel that may have been closed, so the
  listener's channel carries the flag. The two-valued receive \<open>c, ok := <-cl\<close> takes
  the oldest buffered value first (\<open>ok\<close> true), also on a closed channel; with
  nothing buffered it yields \<open>ok\<close> false on a closed channel and blocks on an open
  one.
\<close>

record 'a chan =
  buffered :: "'a list"
  closed :: bool

datatype 'a received = Blocks | NotOk | Ok 'a "'a chan"

definition chan_recv :: "'a chan \<Rightarrow> 'a received" where
  "chan_recv ch =
     (case buffered ch of
        v # q \<Rightarrow> Ok v (ch\<lparr>buffered := q\<rparr>)
      | [] \<Rightarrow> if closed ch then NotOk else Blocks)"

subsection \<open>The connection-state callback (\<open>hs.ConnState\<close>)\<close>

text \<open>
  A \<open>net.Conn\<close> is identified by a number. \<open>newSet\<close> is a \<open>set.Set[net.Conn]\<close>, a
  finite set with \<open>len\<close>, \<open>Add\<close> and \<open>Delete\<close>. The callback holds \<open>stMu\<close> from
  its first statement to its return and never blocks, so it is one atomic update of
  \<open>newSet\<close> and \<open>needConnCh\<close>.
\<close>

type_synonym conn = nat

datatype http_ConnState = StateNew | StateActive | StateIdle | StateHijacked | StateClosed

record tracker =
  newSet :: "conn fset"
  needConnCh :: "bool list"

definition ConnState :: "conn \<Rightarrow> http_ConnState \<Rightarrow> 'z tracker_scheme \<Rightarrow> 'z tracker_scheme" where
  "ConnState c s t =
     (let oldLen = fcard (newSet t);
          t1 = (case s of
                  StateNew \<Rightarrow> t\<lparr>newSet := finsert c (newSet t)\<rparr>
                | _ \<Rightarrow> t\<lparr>newSet := newSet t |-| {|c|}\<rparr>)
      in if oldLen \<noteq> 0 \<and> fcard (newSet t1) = 0
         then t1\<lparr>needConnCh := select_send 1 True (needConnCh t1)\<rparr>
         else t1)"

text \<open>A sequence of calls of the callback, in order.\<close>

fun ConnStates :: "(conn \<times> http_ConnState) list \<Rightarrow> 'z tracker_scheme \<Rightarrow> 'z tracker_scheme" where
  "ConnStates [] t = t"
| "ConnStates ((c, s) # evs) t = ConnStates evs (ConnState c s t)"

subsection \<open>The listener (\<open>chanListener.Accept\<close>)\<close>

text \<open>
  \<open>Accept\<close> returns \<open>(c, nil)\<close>, here \<open>Inr c\<close>, or \<open>(nil, errors.New("closed"))\<close>,
  here \<open>Inl\<close> of the error's text, together with the channel as the receive left it;
  \<open>None\<close> says that the call blocks.
\<close>

definition Accept :: "conn chan \<Rightarrow> ((string + conn) \<times> conn chan) option" where
  "Accept cl =
     (case chan_recv cl of
        Blocks \<Rightarrow> None
      | NotOk \<Rightarrow> Some (Inl ''closed'', cl)
      | Ok c cl' \<Rightarrow> Some (Inr c, cl'))"

subsection \<open>The whole agent\<close>

text \<open>
  The state of the running agent: the callback's variables, the channel \<open>conns\<close>,
  the variables of the loop at the end of \<open>main\<close> with the place the loop has
  reached, what the loop has logged (the argument of each \<open>Connect failure\<close> line),
  and the place the server's accept loop has reached.
\<close>

datatype sup_pc =
    Init            \<comment> \<open>before \<open>needConnCh <- true\<close>\<close>
  | Waiting         \<comment> \<open>at \<open><-needConnCh\<close>\<close>
  | Dialing         \<comment> \<open>in \<open>connect()\<close>\<close>
  | Backoff         \<comment> \<open>in \<open>time.Sleep(time.Second)\<close>\<close>
  | Sending conn    \<comment> \<open>at \<open>conns <- c\<close>\<close>

datatype srv_pc =
    Accepting       \<comment> \<open>in \<open>Accept\<close>\<close>
  | Registering conn \<comment> \<open>\<open>Accept\<close> has returned the connection\<close>
  | Returned string \<comment> \<open>\<open>Serve\<close> has returned the error of \<open>Accept\<close>\<close>

record agent = tracker +
  conns :: "conn list"
  lastErr :: string
  logged :: "string list"
  pc :: sup_pc
  srv :: srv_pc

definition init :: agent where
  "init = \<lparr>newSet = {||}, needConnCh = [], conns = [], lastErr = '''', logged = [],
           pc = Init, srv = Accepting\<rparr>"

text \<open>
  One step of the loop at the end of \<open>main\<close>. The first argument is what \<open>connect()\<close>
  returns if the step is the dial: \<open>Inl\<close> of \<open>err.Error()\<close>, or \<open>Inr\<close> of the
  connection. \<open>None\<close> says that the loop is blocked on a channel.
\<close>

definition sup_step :: "string + conn \<Rightarrow> agent \<Rightarrow> agent option" where
  "sup_step r a =
     (case pc a of
        Init \<Rightarrow>
          (case send 1 True (needConnCh a) of
             None \<Rightarrow> None
           | Some q \<Rightarrow> Some (a\<lparr>needConnCh := q, pc := Waiting\<rparr>))
      | Waiting \<Rightarrow>
          (case recv (needConnCh a) of
             None \<Rightarrow> None
           | Some (_, q) \<Rightarrow> Some (a\<lparr>needConnCh := q, pc := Dialing\<rparr>))
      | Dialing \<Rightarrow>
          (case r of
             Inl s \<Rightarrow>
               Some (a\<lparr>logged := (if s \<noteq> lastErr a then logged a @ [s] else logged a),
                       lastErr := s, pc := Backoff\<rparr>)
           | Inr c \<Rightarrow> Some (a\<lparr>pc := Sending c\<rparr>))
      | Backoff \<Rightarrow> Some (a\<lparr>pc := Waiting\<rparr>)
      | Sending c \<Rightarrow>
          (case send 1 c (conns a) of
             None \<Rightarrow> None
           | Some q \<Rightarrow> Some (a\<lparr>conns := q, pc := Waiting\<rparr>)))"

text \<open>
  \<open>hs.Serve(chanListener(conns))\<close> is the accept loop of net/http's server: it
  calls \<open>Accept\<close>, returns if \<open>Accept\<close> returns an error that is not temporary
  (the error \<open>closed\<close> is not), and otherwise reports the connection to the callback
  as \<open>StateNew\<close> before it accepts again. \<open>serve_accepted\<close> is what the loop does
  with the result of \<open>Accept\<close>, and \<open>serve_step\<close> is one step of the loop. \<open>main\<close>
  never closes \<open>conns\<close>, so the listener of the agent sees an open channel.
\<close>

definition serve_accepted :: "(string + conn) \<times> conn chan \<Rightarrow> agent \<Rightarrow> agent" where
  "serve_accepted res a =
     (case res of
        (Inl e, cl) \<Rightarrow> a\<lparr>srv := Returned e\<rparr>
      | (Inr c, cl) \<Rightarrow> a\<lparr>conns := buffered cl, srv := Registering c\<rparr>)"

definition serve_step :: "agent \<Rightarrow> agent option" where
  "serve_step a =
     (case srv a of
        Accepting \<Rightarrow>
          (case Accept \<lparr>buffered = conns a, closed = False\<rparr> of
             None \<Rightarrow> None
           | Some res \<Rightarrow> Some (serve_accepted res a))
      | Registering c \<Rightarrow> Some ((ConnState c StateNew a)\<lparr>srv := Accepting\<rparr>)
      | Returned e \<Rightarrow> None)"

text \<open>
  The steps of the agent: a step of the loop of \<open>main\<close> with any outcome of the dial,
  a step of the accept loop, or a later state change of some connection, which the
  server reports to the callback with a state other than \<open>StateNew\<close>.
\<close>

inductive step :: "agent \<Rightarrow> agent \<Rightarrow> bool" where
  supervisor: "sup_step r a = Some a' \<Longrightarrow> step a a'"
| server: "serve_step a = Some a' \<Longrightarrow> step a a'"
| conn_state: "s \<noteq> StateNew \<Longrightarrow> step a (ConnState c s a)"

definition reachable :: "agent \<Rightarrow> bool" where
  "reachable a = step\<^sup>*\<^sup>* init a"

text \<open>
  The executions of the loop of \<open>main\<close> alone, whatever the other goroutines do:
  they share with the loop only the two channels, and the callback's set and the
  server's place are theirs.
\<close>

inductive loop_run :: "agent \<Rightarrow> bool" where
  start: "loop_run init"
| loop: "loop_run a \<Longrightarrow> sup_step r a = Some a' \<Longrightarrow> loop_run a'"
| others: "loop_run a \<Longrightarrow> loop_run (a\<lparr>newSet := n, needConnCh := q, conns := k, srv := v\<rparr>)"

text \<open>
  The places that stand for a connection or for the need of one: a pending signal, a
  dial in progress, a connection on its way to the server or in state \<open>StateNew\<close>.
\<close>

definition tokens :: "agent \<Rightarrow> nat" where
  "tokens a =
     length (needConnCh a) + length (conns a) + fcard (newSet a)
     + (case pc a of Init \<Rightarrow> 1 | Dialing \<Rightarrow> 1 | Sending c \<Rightarrow> 1 | _ \<Rightarrow> 0)
     + (case srv a of Registering c \<Rightarrow> 1 | _ \<Rightarrow> 0)"

subsection \<open>The \<open>/fw\<close> handler (\<open>addFirewallHandler\<close>)\<close>

text \<open>
  An \<open>http.Request\<close> is its method and its URL. The \<open>http.ResponseWriter\<close> that the
  server hands to a handler belongs to one request: it is that request, the status
  code sent so far, if any, and the body sent so far. \<open>WriteHeader\<close> sends the status
  code once. \<open>Write\<close> first sends the status code 200 if none has been sent; then it
  sends the bytes, unless the request is a \<open>HEAD\<close> request, whose reply has no body:
  the server takes the bytes and sends nothing. (The handler sends the status codes
  200 and 500 only, and both allow a body.) net/http's \<open>Error(w, msg, code)\<close> sets
  headers (left out here), calls \<open>WriteHeader(code)\<close> and prints \<open>msg\<close> with
  \<open>fmt.Fprintln\<close>, that is, followed by a newline. \<open>io.WriteString\<close> writes the
  string.
\<close>

record request =
  req_method :: string
  req_url :: string

record response =
  req :: request
  code :: "nat option"
  body :: string

definition new_response :: "request \<Rightarrow> response" where
  "new_response r = \<lparr>req = r, code = None, body = []\<rparr>"

definition WriteHeader :: "nat \<Rightarrow> response \<Rightarrow> response" where
  "WriteHeader c w = (if code w = None then w\<lparr>code := Some c\<rparr> else w)"

definition Write_body :: "string \<Rightarrow> response \<Rightarrow> response" where
  "Write_body bs w =
     (let w1 = WriteHeader 200 w
      in if req_method (req w1) = ''HEAD'' then w1 else w1\<lparr>body := body w1 @ bs\<rparr>)"

definition http_Error :: "response \<Rightarrow> string \<Rightarrow> nat \<Rightarrow> response" where
  "http_Error w msg c = Write_body (msg @ [CHR 0x0A]) (WriteHeader c w)"

definition io_WriteString :: "response \<Rightarrow> string \<Rightarrow> response" where
  "io_WriteString w s = Write_body s w"

text \<open>
  The handler itself never looks at the request; the writer it is given is the one
  for that request. \<open>addFirewall\<close> is the package variable
  \<open>var addFirewall func() error\<close>: \<open>None\<close> is nil, and a function returns \<open>None\<close>
  for a nil error and the text of the error otherwise.
\<close>

definition addFirewallHandler ::
    "(unit \<Rightarrow> string option) option \<Rightarrow> response \<Rightarrow> request \<Rightarrow> response" where
  "addFirewallHandler addFirewall w r =
     (case addFirewall of
        None \<Rightarrow> http_Error w ''firewall not supported'' 500
      | Some f \<Rightarrow>
          (case f () of
             Some err \<Rightarrow> http_Error w err 500
           | None \<Rightarrow> io_WriteString w (''OK'' @ [CHR 0x0A])))"

subsection \<open>The log buffer (\<open>logBuffer\<close>)\<close>

text \<open>
  A \<open>bytes.Buffer\<close> that is only written to is the list of the bytes written:
  \<open>Len\<close> is its length, and \<open>Write\<close> appends and returns \<open>(len(p), nil)\<close>
  (its panic when the buffer cannot grow any more is left out).
  \<open>logBuffer.Write\<close> holds \<open>mu\<close> throughout, so it is atomic. An \<open>error\<close> is
  \<open>None\<close> when nil.
\<close>

type_synonym byte = "8 word"

record logBuffer =
  buf :: "byte list"

definition Buffer_Len :: "byte list \<Rightarrow> nat" where
  "Buffer_Len b = length b"

definition Buffer_Write :: "byte list \<Rightarrow> byte list \<Rightarrow> (nat \<times> string option) \<times> byte list" where
  "Buffer_Write b p = ((length p, None), b @ p)"

definition maxSize :: nat where
  "maxSize = push_bit 20 1"

definition Write :: "logBuffer \<Rightarrow> byte list \<Rightarrow> (nat \<times> string option) \<times> logBuffer" where
  "Write lb p =
     (if Buffer_Len (buf lb) > maxSize then ((length p, None), lb)
      else (case Buffer_Write (buf lb) p of (res, b) \<Rightarrow> (res, lb\<lparr>buf := b\<rparr>)))"

text \<open>A sequence of calls of \<open>Write\<close>, in order: the buffer they leave.\<close>

fun Writes :: "logBuffer \<Rightarrow> byte list list \<Rightarrow> logBuffer" where
  "Writes lb [] = lb"
| "Writes lb (p # ps) = Writes (snd (Write lb p)) ps"

section \<open>Properties\<close>

subsection \<open>The callback\<close>

lemma fcard_pos: "0 < fcard A \<longleftrightarrow> A \<noteq> {||}"
  using fcard_0_eq [of A] by linarith

lemma select_send_1: "select_send 1 v q = (if q = [] then [v] else q)"
  by (simp add: select_send_def send_def)

lemma select_send_eq: "select_send cap v q = (if length q < cap then q @ [v] else q)"
  by (simp add: select_send_def send_def)

lemma length_select_send: "length (select_send cap v q) \<le> Suc (length q)"
  by (simp add: select_send_def send_def)

lemma newSet_ConnState:
  "newSet (ConnState c s t) = (if s = StateNew then finsert c (newSet t) else newSet t |-| {|c|})"
  by (cases s) (simp_all add: ConnState_def Let_def)

lemma needConnCh_ConnState:
  "needConnCh (ConnState c s t) =
     (if newSet t \<noteq> {||} \<and> newSet (ConnState c s t) = {||}
      then select_send 1 True (needConnCh t) else needConnCh t)"
  by (cases s) (simp_all add: ConnState_def Let_def fcard_pos)

lemma frame_ConnState:
  "conns (ConnState c s a) = conns a" "lastErr (ConnState c s a) = lastErr a"
  "logged (ConnState c s a) = logged a" "pc (ConnState c s a) = pc a"
  "srv (ConnState c s a) = srv a"
  by (cases s; simp add: ConnState_def Let_def)+

lemma tokens_ConnState_other:
  assumes "s \<noteq> StateNew"
  shows "tokens (ConnState c s a) \<le> tokens a"
proof -
  have n: "newSet (ConnState c s a) = newSet a |-| {|c|}"
    using assms by (simp add: newSet_ConnState)
  show ?thesis
  proof (cases "newSet a \<noteq> {||} \<and> newSet a |-| {|c|} = {||}")
    case True
    then have "c |\<in>| newSet a" by auto
    then have "fcard (newSet a) = Suc (fcard (newSet a |-| {|c|}))"
      using fcard_Suc_fminus1 [of c "newSet a"] by presburger
    moreover have "length (needConnCh (ConnState c s a)) \<le> Suc (length (needConnCh a))"
      by (simp add: needConnCh_ConnState length_select_send)
    ultimately show ?thesis
      by (simp add: tokens_def frame_ConnState n)
  next
    case False
    then have "needConnCh (ConnState c s a) = needConnCh a"
      using needConnCh_ConnState [of c s a] n by auto
    moreover have "fcard (newSet a |-| {|c|}) \<le> fcard (newSet a)"
      by (rule fcard_fminus1_le)
    ultimately show ?thesis
      by (simp add: tokens_def frame_ConnState n)
  qed
qed

lemma tokens_ConnState_new:
  "tokens ((ConnState c StateNew a)\<lparr>srv := Accepting\<rparr>) \<le> Suc (tokens (a\<lparr>srv := Accepting\<rparr>))"
proof -
  have "fcard (finsert c (newSet a)) \<le> Suc (fcard (newSet a))"
    by (simp add: fcard_finsert_if)
  then show ?thesis
    by (simp add: tokens_def frame_ConnState newSet_ConnState needConnCh_ConnState)
qed

lemma tokens_sup_step: "sup_step r a = Some a' \<Longrightarrow> tokens a' \<le> tokens a"
  by (cases "pc a"; cases r)
     (auto simp: sup_step_def tokens_def send_def recv_def split: if_splits list.splits)

lemma tokens_serve_step:
  assumes "serve_step a = Some a'"
  shows "tokens a' \<le> tokens a"
proof (cases "srv a")
  case Accepting
  with assms show ?thesis
    by (auto simp: serve_step_def serve_accepted_def Accept_def chan_recv_def tokens_def
        split: list.splits)
next
  case (Registering c)
  with assms have "a' = (ConnState c StateNew a)\<lparr>srv := Accepting\<rparr>"
    by (simp add: serve_step_def)
  moreover have "tokens a = Suc (tokens (a\<lparr>srv := Accepting\<rparr>))"
    using Registering by (simp add: tokens_def)
  ultimately show ?thesis
    using tokens_ConnState_new [of c a] by simp
next
  case (Returned e)
  with assms show ?thesis by (simp add: serve_step_def)
qed

lemma tokens_step: "step a a' \<Longrightarrow> tokens a' \<le> tokens a"
  by (induction rule: step.induct)
     (simp_all add: tokens_sup_step tokens_serve_step tokens_ConnState_other)

lemma tokens_steps: "step\<^sup>*\<^sup>* a a' \<Longrightarrow> tokens a' \<le> tokens a"
  by (induction rule: rtranclp_induct) (auto dest: tokens_step)

lemma tokens_init: "tokens init = 1"
  by (simp add: tokens_def init_def)

lemma tokens_reachable: "reachable a \<Longrightarrow> tokens a \<le> 1"
  using tokens_steps [of init a] by (simp add: reachable_def tokens_init)

lemma logged_loop_run:
  assumes "loop_run a"
  shows "if logged a = [] then lastErr a = [] else lastErr a = last (logged a)"
  using assms
proof (induction rule: loop_run.induct)
  case start
  show ?case by (simp add: init_def)
next
  case (loop a r a')
  then show ?case
    by (cases "pc a"; cases r)
       (auto simp: sup_step_def split: if_splits option.splits)
next
  case (others a n q k v)
  then show ?case by simp
qed

subsection \<open>The agent\<close>

lemma ConnState_eq:
  "ConnState c s t =
     t\<lparr>newSet := (if s = StateNew then finsert c (newSet t) else newSet t |-| {|c|}),
       needConnCh :=
         (if s \<noteq> StateNew \<and> newSet t \<noteq> {||} \<and> newSet t |-| {|c|} = {||}
          then select_send 1 True (needConnCh t) else needConnCh t)\<rparr>"
  by (cases s) (simp_all add: ConnState_def Let_def fcard_pos)

lemma frame_ConnStates:
  "conns (ConnStates evs a) = conns a" "lastErr (ConnStates evs a) = lastErr a"
  "logged (ConnStates evs a) = logged a" "pc (ConnStates evs a) = pc a"
  "srv (ConnStates evs a) = srv a"
  by (induction evs a rule: ConnStates.induct; simp add: frame_ConnState)+

lemma needConnCh_ConnStates_pending:
  "needConnCh t \<noteq> [] \<Longrightarrow> needConnCh (ConnStates evs t) = needConnCh t"
proof (induction evs t rule: ConnStates.induct)
  case (1 t)
  show ?case by simp
next
  case (2 c s evs t)
  have "needConnCh (ConnState c s t) = needConnCh t"
    using 2(2) by (simp add: needConnCh_ConnState select_send_eq)
  then show ?case using 2 by simp
qed

lemma length_needConnCh_ConnStates:
  "length (needConnCh t) \<le> 1 \<Longrightarrow> length (needConnCh (ConnStates evs t)) \<le> 1"
proof (induction evs t rule: ConnStates.induct)
  case (1 t)
  then show ?case by simp
next
  case (2 c s evs t)
  have "length (needConnCh (ConnState c s t)) \<le> 1"
    using 2(2) by (simp add: needConnCh_ConnState select_send_eq)
  then show ?case using 2 by simp
qed

lemma reachable_init: "reachable init"
  by (simp add: reachable_def)

lemma reachable_step: "reachable a \<Longrightarrow> step a a' \<Longrightarrow> reachable a'"
  by (simp add: reachable_def)

lemma reachable_sup: "reachable a \<Longrightarrow> sup_step r a = Some a' \<Longrightarrow> reachable a'"
  by (blast intro: reachable_step step.supervisor)

lemma tokens_0:
  assumes "tokens a = 0"
  shows "needConnCh a = [] \<and> conns a = [] \<and> newSet a = {||} \<and> (pc a = Waiting \<or> pc a = Backoff)"
  using assms by (cases "pc a") (simp_all add: tokens_def)

lemma tokens_le_1_conns:
  assumes "tokens a \<le> 1" "conns a \<noteq> []"
  shows "length (conns a) = 1 \<and> needConnCh a = [] \<and> (pc a = Waiting \<or> pc a = Backoff)"
proof -
  have "1 \<le> length (conns a)" using assms(2) by (cases "conns a") simp_all
  then show ?thesis
    using assms(1) by (cases "pc a"; cases "needConnCh a"; simp add: tokens_def)
qed

lemma sup_step_Waiting_empty: "pc a = Waiting \<Longrightarrow> needConnCh a = [] \<Longrightarrow> sup_step r a = None"
  by (simp add: sup_step_def recv_def)

lemma sup_step_Backoff: "pc a = Backoff \<Longrightarrow> sup_step r a = Some (a\<lparr>pc := Waiting\<rparr>)"
  by (simp add: sup_step_def)

lemma sup_step_Sending:
  "pc b = Sending c \<Longrightarrow>
   sup_step r b = (if conns b = [] then Some (b\<lparr>conns := [c], pc := Waiting\<rparr>) else None)"
  by (cases "conns b") (simp_all add: sup_step_def send_def)

subsection \<open>The log buffer\<close>

lemma maxSize_eq: "maxSize = 2 ^ 20"
  by (simp add: maxSize_def push_bit_eq_mult)

lemma length_Write:
  "length (buf lb) \<le> maxSize + k \<Longrightarrow> length p \<le> k \<Longrightarrow>
   length (buf (snd (Write lb p))) \<le> maxSize + k"
  by (simp add: Write_def Buffer_Len_def Buffer_Write_def)

lemma length_Writes:
  "length (buf lb) \<le> maxSize + k \<Longrightarrow> \<forall>p \<in> set ps. length p \<le> k \<Longrightarrow>
   length (buf (Writes lb ps)) \<le> maxSize + k"
proof (induction ps arbitrary: lb)
  case Nil
  then show ?case by simp
next
  case (Cons p ps)
  have "length (buf (snd (Write lb p))) \<le> maxSize + k"
    using Cons.prems by (intro length_Write) simp_all
  then show ?case
    using Cons.IH [of "snd (Write lb p)"] Cons.prems by simp
qed

section \<open>The claims\<close>

subsection \<open>The connection-state callback\<close>

text \<open>
  Claim C3. A call of the callback with state \<open>StateNew\<close> adds the connection to
  \<open>newSet\<close>, and a call with any other state removes it if it is there. The signal
  is sent exactly when the set was not empty before the call and is empty after it,
  and the send does not block: a channel that already holds a signal is left as it is.
\<close>

theorem ConnState_observe:
  "newSet (ConnState c s t) =
     (if s = StateNew then finsert c (newSet t) else newSet t |-| {|c|})
   \<and> needConnCh (ConnState c s t) =
     (if newSet t \<noteq> {||} \<and> newSet (ConnState c s t) = {||}
      then (if needConnCh t = [] then [True] else needConnCh t)
      else needConnCh t)"
  using newSet_ConnState [of c s t] needConnCh_ConnState [of c s t]
    select_send_1 [of True "needConnCh t"]
  by presburger

theorem ConnState_observe_witness:
  "ConnState 7 StateClosed \<lparr>newSet = {|7|}, needConnCh = []\<rparr> = \<lparr>newSet = {||}, needConnCh = [True]\<rparr>
   \<and> ConnState 7 StateClosed \<lparr>newSet = {|7|}, needConnCh = [True]\<rparr> = \<lparr>newSet = {||}, needConnCh = [True]\<rparr>
   \<and> ConnState 7 StateActive \<lparr>newSet = {|7, 8|}, needConnCh = []\<rparr> = \<lparr>newSet = {|8|}, needConnCh = []\<rparr>
   \<and> ConnState 7 StateNew \<lparr>newSet = {||}, needConnCh = []\<rparr> = \<lparr>newSet = {|7|}, needConnCh = []\<rparr>"
  using ConnState_observe [of 7 StateClosed "\<lparr>newSet = {|7|}, needConnCh = []\<rparr>"]
    ConnState_observe [of 7 StateClosed "\<lparr>newSet = {|7|}, needConnCh = [True]\<rparr>"]
    ConnState_observe [of 7 StateActive "\<lparr>newSet = {|7, 8|}, needConnCh = []\<rparr>"]
    ConnState_observe [of 7 StateNew "\<lparr>newSet = {||}, needConnCh = []\<rparr>"]
  by (simp add: tracker.equality)

text \<open>
  Claim C10. A call of the callback with \<open>StateNew\<close> never sends the signal: the
  connection is in the set after the call, so the set is not empty, whatever it was
  before. A call that changes \<open>needConnCh\<close> is therefore a call with another state.
\<close>

theorem ConnState_new_never_signals:
  "needConnCh (ConnState c StateNew t) = needConnCh t
   \<and> c |\<in>| newSet (ConnState c StateNew t)
   \<and> newSet (ConnState c StateNew t) \<noteq> {||}
   \<and> (needConnCh (ConnState c s t) \<noteq> needConnCh t \<longrightarrow> s \<noteq> StateNew)"
  by (auto simp: newSet_ConnState needConnCh_ConnState)

theorem ConnState_new_never_signals_witness:
  "needConnCh (ConnState 8 StateNew \<lparr>newSet = {|8|}, needConnCh = []\<rparr>) = []
   \<and> needConnCh (ConnState 8 StateIdle \<lparr>newSet = {|8|}, needConnCh = []\<rparr>) \<noteq> []
   \<and> StateIdle \<noteq> StateNew"
  using ConnState_new_never_signals [of 8 "\<lparr>newSet = {|8|}, needConnCh = []\<rparr>" StateIdle]
  by (simp add: needConnCh_ConnState newSet_ConnState select_send_eq)

subsection \<open>The log buffer\<close>

text \<open>
  Claim C9. \<open>Write\<close> stores all of \<open>p\<close> or nothing and always reports
  \<open>(len(p), nil)\<close>: when the buffer holds at most \<open>2^20\<close> bytes at entry, all of
  \<open>p\<close> is appended, so that the content can pass \<open>2^20\<close> bytes by up to the length
  of that write; when it holds more, the buffer is left as it is. No write is cut to
  fit.
\<close>

theorem Write_all_or_nothing:
  "Write lb p =
     ((length p, None),
      if length (buf lb) \<le> 2 ^ 20 then lb\<lparr>buf := buf lb @ p\<rparr> else lb)"
  by (simp add: Write_def Buffer_Len_def Buffer_Write_def maxSize_eq)

theorem Write_all_or_nothing_witness:
  "Write \<lparr>buf = [1, 2]\<rparr> [3, 4, 5] = ((3, None), \<lparr>buf = [1, 2, 3, 4, 5]\<rparr>)
   \<and> Write \<lparr>buf = replicate (2 ^ 20) 0\<rparr> [3, 4, 5] = ((3, None), \<lparr>buf = replicate (2 ^ 20) 0 @ [3, 4, 5]\<rparr>)
   \<and> Write \<lparr>buf = replicate (2 ^ 20 + 1) 0\<rparr> [3, 4, 5] = ((3, None), \<lparr>buf = replicate (2 ^ 20 + 1) 0\<rparr>)"
  using Write_all_or_nothing [of "\<lparr>buf = [1, 2]\<rparr>" "[3, 4, 5]"]
    Write_all_or_nothing [of "\<lparr>buf = replicate (2 ^ 20) 0\<rparr>" "[3, 4, 5]"]
    Write_all_or_nothing [of "\<lparr>buf = replicate (2 ^ 20 + 1) 0\<rparr>" "[3, 4, 5]"]
  by simp

text \<open>
  Claim C2. The claim is that a write which takes the buffer past \<open>2^20\<close> bytes has
  its excess dropped, so that the buffer never holds more than \<open>2^20\<close> bytes. It
  does not hold: \<open>Write\<close> tests the length before the write only, so a buffer
  of \<open>2^20\<close> bytes takes three more bytes whole and then holds \<open>2^20 + 3\<close>.
\<close>

theorem Write_past_maxSize:
  "fst (Write \<lparr>buf = replicate (2 ^ 20) 0\<rparr> [1, 2, 3]) = (3, None)
   \<and> buf (snd (Write \<lparr>buf = replicate (2 ^ 20) 0\<rparr> [1, 2, 3])) = replicate (2 ^ 20) 0 @ [1, 2, 3]
   \<and> \<not> length (buf (snd (Write \<lparr>buf = replicate (2 ^ 20) 0\<rparr> [1, 2, 3]))) \<le> 2 ^ 20"
  by (simp add: Write_def Buffer_Len_def Buffer_Write_def maxSize_eq)

text \<open>
  Claim C2, as amended. Every \<open>Write\<close> of \<open>N\<close> bytes returns \<open>(N, nil)\<close>. The
  bytes are dropped, all of them, when the buffer already holds more than \<open>2^20\<close>
  bytes, and stored, all of them, otherwise. So after any sequence of writes of at
  most \<open>k\<close> bytes each, the buffer holds at most \<open>2^20 + k\<close> bytes.
\<close>

theorem Write_drops_whole_writes:
  "fst (Write lb p) = (length p, None)
   \<and> (2 ^ 20 < length (buf lb) \<longrightarrow> snd (Write lb p) = lb)
   \<and> (length (buf lb) \<le> 2 ^ 20 \<longrightarrow> buf (snd (Write lb p)) = buf lb @ p)
   \<and> (length (buf lb) \<le> 2 ^ 20 + k \<and> (\<forall>p \<in> set ps. length p \<le> k) \<longrightarrow>
        length (buf (Writes lb ps)) \<le> 2 ^ 20 + k)"
  using length_Writes [of lb k ps]
  by (simp add: Write_def Buffer_Len_def Buffer_Write_def maxSize_eq)

theorem Write_drops_whole_writes_witness:
  "fst (Write \<lparr>buf = replicate (2 ^ 20 + 1) 0\<rparr> [1, 2]) = (2, None)
   \<and> 2 ^ 20 < length (buf \<lparr>buf = replicate (2 ^ 20 + 1) (0 :: byte)\<rparr>)
   \<and> snd (Write \<lparr>buf = replicate (2 ^ 20 + 1) 0\<rparr> [1, 2]) = \<lparr>buf = replicate (2 ^ 20 + 1) 0\<rparr>
   \<and> length (buf \<lparr>buf = replicate (2 ^ 20 - 1) (0 :: byte)\<rparr>) \<le> 2 ^ 20
   \<and> buf (snd (Write \<lparr>buf = replicate (2 ^ 20 - 1) 0\<rparr> [1, 2])) = replicate (2 ^ 20 - 1) 0 @ [1, 2]
   \<and> length (buf (Writes \<lparr>buf = replicate (2 ^ 20 - 1) 0\<rparr> [[1, 2], [3, 4], [5]])) \<le> 2 ^ 20 + 2"
proof -
  have a: "(\<forall>p \<in> set [[1, 2], [3, 4], [5 :: byte]]. length p \<le> 2)" by simp
  show ?thesis
    using a Write_drops_whole_writes [of "\<lparr>buf = replicate (2 ^ 20 + 1) 0\<rparr>" "[1, 2]" 0 "[]"]
      Write_drops_whole_writes [of "\<lparr>buf = replicate (2 ^ 20 - 1) 0\<rparr>" "[1, 2]" 2 "[[1, 2], [3, 4], [5]]"]
    by simp
qed

subsection \<open>The listener\<close>

text \<open>
  Claim C7. The claim is that \<open>Accept\<close> returns an error if and only if the channel
  has been closed. It does not hold: a receive on a closed channel first yields
  what the channel still holds, so \<open>Accept\<close> on a closed channel that holds a
  connection returns that connection and no error.
\<close>

theorem Accept_closed_with_buffered:
  "closed \<lparr>buffered = [7], closed = True\<rparr>
   \<and> Accept \<lparr>buffered = [7], closed = True\<rparr> = Some (Inr 7, \<lparr>buffered = [], closed = True\<rparr>)"
  by (simp add: Accept_def chan_recv_def)

text \<open>
  Claim C7, as amended. \<open>Accept\<close> returns an error, the error \<open>closed\<close>, if and
  only if the channel has been closed and holds no connection. It blocks if and only
  if the channel is open and holds no connection. Otherwise it returns the oldest
  connection that the channel holds, with no error, and takes it off the channel.
  The server's accept loop ends when \<open>Accept\<close> returns the error.
\<close>

theorem Accept_error_iff_closed_and_empty:
  "(Accept cl = Some (Inl e, cl') \<longleftrightarrow> closed cl \<and> buffered cl = [] \<and> e = ''closed'' \<and> cl' = cl)
   \<and> (Accept cl = None \<longleftrightarrow> \<not> closed cl \<and> buffered cl = [])
   \<and> (Accept cl = Some (Inr c, cl') \<longleftrightarrow> (\<exists>q. buffered cl = c # q \<and> cl' = cl\<lparr>buffered := q\<rparr>))
   \<and> (Accept cl = Some (Inl e, cl') \<longrightarrow>
        srv (serve_accepted (Inl e, cl') a) = Returned ''closed''
        \<and> serve_step (serve_accepted (Inl e, cl') a) = None)"
  by (cases "buffered cl")
     (auto simp: Accept_def chan_recv_def serve_accepted_def serve_step_def)

theorem Accept_error_iff_closed_and_empty_witness:
  "Accept \<lparr>buffered = [], closed = True\<rparr> = Some (Inl ''closed'', \<lparr>buffered = [], closed = True\<rparr>)
   \<and> Accept \<lparr>buffered = [], closed = False\<rparr> = None
   \<and> Accept \<lparr>buffered = [7], closed = False\<rparr> = Some (Inr 7, \<lparr>buffered = [], closed = False\<rparr>)
   \<and> serve_accepted (Inl ''closed'', \<lparr>buffered = [], closed = True\<rparr>) init = init\<lparr>srv := Returned ''closed''\<rparr>
   \<and> serve_step (init\<lparr>srv := Returned ''closed''\<rparr>) = None"
  using Accept_error_iff_closed_and_empty [of "\<lparr>buffered = [], closed = True\<rparr>" "''closed''" "\<lparr>buffered = [], closed = True\<rparr>" 7 init]
    Accept_error_iff_closed_and_empty [of "\<lparr>buffered = [], closed = False\<rparr>" "''closed''" "\<lparr>buffered = [], closed = True\<rparr>" 7 init]
    Accept_error_iff_closed_and_empty [of "\<lparr>buffered = [7], closed = False\<rparr>" "''closed''" "\<lparr>buffered = [], closed = False\<rparr>" 7 init]
  by (simp add: serve_accepted_def)

subsection \<open>The \<open>/fw\<close> handler\<close>

text \<open>
  Claim C8. The claim is that, for every request, the body of the reply without
  firewall support is \<open>firewall not supported\<close>. It does not hold as written: the
  handler replies through net/http's \<open>Error\<close>, which ends the message with a
  newline, as the claim itself writes for the body \<open>OK\<close>; this is so already for a
  \<open>GET\<close> request.
\<close>

theorem fw_error_body_ends_with_newline:
  "body (addFirewallHandler None (new_response \<lparr>req_method = ''GET'', req_url = ''/fw''\<rparr>)
           \<lparr>req_method = ''GET'', req_url = ''/fw''\<rparr>)
     = ''firewall not supported'' @ [CHR 0x0A]
   \<and> body (addFirewallHandler None (new_response \<lparr>req_method = ''GET'', req_url = ''/fw''\<rparr>)
           \<lparr>req_method = ''GET'', req_url = ''/fw''\<rparr>)
     \<noteq> ''firewall not supported''"
  by (simp add: addFirewallHandler_def http_Error_def Write_body_def WriteHeader_def
      new_response_def)

text \<open>
  Claim C8, as amended. For every \<open>GET\<close> or \<open>POST\<close> request that the \<open>/fw\<close> handler
  serves: when \<open>addFirewall\<close> is nil the reply has status 500 and the body
  \<open>firewall not supported\<close> followed by a newline; when \<open>addFirewall\<close> returns an
  error the reply has status 500 and the body is the text of the error followed by a
  newline; otherwise the reply has status 200 and the body \<open>OK\<close> followed by a
  newline. The reply to a \<open>HEAD\<close> request has the same status and an empty body.
\<close>

theorem addFirewallHandler_replies:
  "(req_method r = ''GET'' \<or> req_method r = ''POST'' \<longrightarrow>
      addFirewallHandler None (new_response r) r
        = \<lparr>req = r, code = Some 500, body = ''firewall not supported'' @ [CHR 0x0A]\<rparr>
      \<and> (f () = Some err \<longrightarrow>
           addFirewallHandler (Some f) (new_response r) r
             = \<lparr>req = r, code = Some 500, body = err @ [CHR 0x0A]\<rparr>)
      \<and> (f () = None \<longrightarrow>
           addFirewallHandler (Some f) (new_response r) r
             = \<lparr>req = r, code = Some 200, body = ''OK'' @ [CHR 0x0A]\<rparr>))
   \<and> (req_method r = ''HEAD'' \<longrightarrow>
      addFirewallHandler None (new_response r) r = \<lparr>req = r, code = Some 500, body = []\<rparr>
      \<and> (f () = Some err \<longrightarrow>
           addFirewallHandler (Some f) (new_response r) r = \<lparr>req = r, code = Some 500, body = []\<rparr>)
      \<and> (f () = None \<longrightarrow>
           addFirewallHandler (Some f) (new_response r) r = \<lparr>req = r, code = Some 200, body = []\<rparr>))"
proof -
  have e: "http_Error (new_response r) msg 500 =
             \<lparr>req = r, code = Some 500,
                body = (if req_method r = ''HEAD'' then [] else msg @ [CHR 0x0A])\<rparr>" for msg
    by (simp add: http_Error_def Write_body_def WriteHeader_def new_response_def)
  have w: "io_WriteString (new_response r) bs =
             \<lparr>req = r, code = Some 200,
                body = (if req_method r = ''HEAD'' then [] else bs)\<rparr>" for bs
    by (simp add: io_WriteString_def Write_body_def WriteHeader_def new_response_def)
  have g: "req_method r = ''GET'' \<or> req_method r = ''POST'' \<Longrightarrow> req_method r \<noteq> ''HEAD''"
    by auto
  show ?thesis
    using g by (auto simp: addFirewallHandler_def e w)
qed

theorem addFirewallHandler_replies_witness:
  "addFirewallHandler None (new_response \<lparr>req_method = ''GET'', req_url = ''/fw''\<rparr>)
       \<lparr>req_method = ''GET'', req_url = ''/fw''\<rparr>
     = \<lparr>req = \<lparr>req_method = ''GET'', req_url = ''/fw''\<rparr>, code = Some 500,
        body = ''firewall not supported'' @ [CHR 0x0A]\<rparr>
   \<and> addFirewallHandler (Some (\<lambda>_. Some ''exit status 1''))
       (new_response \<lparr>req_method = ''POST'', req_url = ''/fw''\<rparr>)
       \<lparr>req_method = ''POST'', req_url = ''/fw''\<rparr>
     = \<lparr>req = \<lparr>req_method = ''POST'', req_url = ''/fw''\<rparr>, code = Some 500,
        body = ''exit status 1'' @ [CHR 0x0A]\<rparr>
   \<and> addFirewallHandler (Some (\<lambda>_. None))
       (new_response \<lparr>req_method = ''GET'', req_url = ''/fw''\<rparr>)
       \<lparr>req_method = ''GET'', req_url = ''/fw''\<rparr>
     = \<lparr>req = \<lparr>req_method = ''GET'', req_url = ''/fw''\<rparr>, code = Some 200,
        body = ''OK'' @ [CHR 0x0A]\<rparr>
   \<and> addFirewallHandler None (new_response \<lparr>req_method = ''HEAD'', req_url = ''/fw''\<rparr>)
       \<lparr>req_method = ''HEAD'', req_url = ''/fw''\<rparr>
     = \<lparr>req = \<lparr>req_method = ''HEAD'', req_url = ''/fw''\<rparr>, code = Some 500, body = []\<rparr>"
  using addFirewallHandler_replies [of "\<lparr>req_method = ''GET'', req_url = ''/fw''\<rparr>"
      "\<lambda>_. None" "[]"]
    addFirewallHandler_replies [of "\<lparr>req_method = ''POST'', req_url = ''/fw''\<rparr>"
      "\<lambda>_. Some ''exit status 1''" "''exit status 1''"]
    addFirewallHandler_replies [of "\<lparr>req_method = ''HEAD'', req_url = ''/fw''\<rparr>"
      "\<lambda>_. None" "[]"]
  by simp

subsection \<open>The loop of \<open>main\<close> and the channels\<close>

text \<open>
  Claim C1. The claim is that after a failed dial the loop dials again after the
  sleep, with no new signal. The loop does otherwise: it takes the signal off
  \<open>needConnCh\<close> before it dials, a failed dial puts none back, and \<open>continue\<close>
  leads to the receive again. In every execution of the agent, from the state in
  which a dial has just failed on, the loop is in the sleep or at the receive, the
  channel holds no signal, and the loop at the receive is blocked: it never dials
  again.
\<close>

theorem dial_failure_is_never_retried:
  assumes "reachable a" and "pc a = Dialing" and "sup_step (Inl e) a = Some a'"
    and "step\<^sup>*\<^sup>* a' a''"
  shows "(pc a'' = Backoff \<or> pc a'' = Waiting) \<and> needConnCh a'' = []
         \<and> (pc a'' = Waiting \<longrightarrow> sup_step r a'' = None)"
proof -
  have "tokens a \<le> 1" using assms(1) by (rule tokens_reachable)
  moreover have "a' = a\<lparr>logged := (if e \<noteq> lastErr a then logged a @ [e] else logged a),
                            lastErr := e, pc := Backoff\<rparr>"
    using assms(2,3) by (simp add: sup_step_def)
  then have "tokens a = Suc (tokens a')"
    using assms(2) by (simp add: tokens_def)
  ultimately have "tokens a' = 0" by linarith
  then have z: "tokens a'' = 0" using tokens_steps [OF assms(4)] by simp
  show ?thesis
    using tokens_0 [OF z] by (auto simp: sup_step_Waiting_empty)
qed

theorem dial_failure_is_never_retried_witness:
  "(pc (init\<lparr>lastErr := ''connection refused'', logged := [''connection refused''], pc := Waiting\<rparr>) = Waiting)
   \<and> sup_step (Inl ''connection refused'')
        (init\<lparr>lastErr := ''connection refused'', logged := [''connection refused''], pc := Waiting\<rparr>) = None"
proof -
  let ?e = "''connection refused''"
  let ?W1 = "init\<lparr>needConnCh := [True], pc := Waiting\<rparr>"
  let ?D1 = "init\<lparr>pc := Dialing\<rparr>"
  let ?B1 = "init\<lparr>lastErr := ?e, logged := [?e], pc := Backoff\<rparr>"
  let ?W2 = "init\<lparr>lastErr := ?e, logged := [?e], pc := Waiting\<rparr>"
  have 1: "sup_step (Inl ?e) init = Some ?W1"
    by (simp add: sup_step_def init_def send_def)
  have 2: "sup_step (Inl ?e) ?W1 = Some ?D1"
    by (simp add: sup_step_def init_def recv_def)
  have 3: "sup_step (Inl ?e) ?D1 = Some ?B1"
    by (simp add: sup_step_def init_def)
  have 4: "sup_step (Inl ?e) ?B1 = Some ?W2"
    by (simp add: sup_step_def init_def)
  have r: "reachable ?D1"
    using reachable_init 1 2 by (blast intro: reachable_sup)
  have s: "step\<^sup>*\<^sup>* ?B1 ?W2"
    using 4 by (blast intro: step.supervisor)
  have p: "pc ?D1 = Dialing" by simp
  show ?thesis
    using dial_failure_is_never_retried [OF r p 3 s, of "Inl ?e"] by simp
qed

text \<open>
  Claim C4. \<open>needConnCh\<close> holds at most one signal in every state of every
  execution. While it holds one, calls of the callback leave the channel as it is,
  however many of them find the set emptied: the signal is not queued twice. So when
  the loop of \<open>main\<close> takes the signal after any number of such calls, it starts one
  dial and leaves the channel empty, and at its next receive it blocks until a call
  of the callback sends again.
\<close>

theorem needConnCh_holds_one_signal:
  "(reachable a \<longrightarrow> length (needConnCh a) \<le> 1)
   \<and> (needConnCh t \<noteq> [] \<longrightarrow> needConnCh (ConnStates evs t) = needConnCh t)
   \<and> (length (needConnCh t) \<le> 1 \<longrightarrow> length (needConnCh (ConnStates evs t)) \<le> 1)
   \<and> (pc b = Waiting \<and> length (needConnCh b) \<le> 1 \<and> sup_step r (ConnStates evs b) = Some b' \<longrightarrow>
        pc b' = Dialing \<and> needConnCh b' = [] \<and> sup_step r' (b'\<lparr>pc := Waiting\<rparr>) = None)"
proof -
  have 1: "length (needConnCh a) \<le> 1" if "reachable a"
    using tokens_reachable [OF that] by (simp add: tokens_def)
  have 4: "pc b' = Dialing \<and> needConnCh b' = [] \<and> sup_step r' (b'\<lparr>pc := Waiting\<rparr>) = None"
    if p: "pc b = Waiting" and l: "length (needConnCh b) \<le> 1"
      and s: "sup_step r (ConnStates evs b) = Some b'"
  proof -
    let ?b = "ConnStates evs b"
    have l': "length (needConnCh ?b) \<le> 1"
      using l by (rule length_needConnCh_ConnStates)
    have p': "pc ?b = Waiting" using p by (simp add: frame_ConnStates)
    obtain x where q: "needConnCh ?b = [x]"
      using s p' l' by (cases "needConnCh ?b") (auto simp: sup_step_def recv_def)
    have "b' = ?b\<lparr>needConnCh := [], pc := Dialing\<rparr>"
      using s p' q by (simp add: sup_step_def recv_def)
    then show ?thesis by (simp add: sup_step_def recv_def)
  qed
  show ?thesis
    using 1 4 needConnCh_ConnStates_pending [of t evs] length_needConnCh_ConnStates [of t evs]
    by blast
qed

theorem needConnCh_holds_one_signal_witness:
  "length (needConnCh (init\<lparr>needConnCh := [True], pc := Waiting\<rparr>)) \<le> 1
   \<and> needConnCh (ConnStates [(1, StateNew), (1, StateActive), (2, StateNew), (2, StateClosed)]
        \<lparr>newSet = {||}, needConnCh = [True]\<rparr>) = [True]
   \<and> needConnCh (ConnStates [(1, StateNew), (1, StateActive), (2, StateNew), (2, StateClosed)]
        \<lparr>newSet = {||}, needConnCh = []\<rparr>) = [True]
   \<and> sup_step (Inr 3)
        (ConnStates [(1, StateNew), (1, StateActive), (2, StateNew), (2, StateClosed)]
           (init\<lparr>pc := Waiting\<rparr>)) = Some (init\<lparr>pc := Dialing\<rparr>)
   \<and> sup_step (Inr 4) (init\<lparr>pc := Waiting\<rparr>) = None"
proof -
  let ?evs = "[(1, StateNew), (1, StateActive), (2, StateNew), (2, StateClosed)]"
  let ?W1 = "init\<lparr>needConnCh := [True], pc := Waiting\<rparr>"
  have r: "reachable ?W1"
  proof -
    have "sup_step (Inr 3) init = Some ?W1"
      by (simp add: sup_step_def init_def send_def)
    then show ?thesis using reachable_init by (blast intro: reachable_sup)
  qed
  have e1: "ConnStates ?evs \<lparr>newSet = {||}, needConnCh = [True]\<rparr> = \<lparr>newSet = {||}, needConnCh = [True]\<rparr>"
    by (simp add: ConnState_eq select_send_eq)
  have e2: "ConnStates ?evs \<lparr>newSet = {||}, needConnCh = []\<rparr> = \<lparr>newSet = {||}, needConnCh = [True]\<rparr>"
    by (simp add: ConnState_eq select_send_eq)
  have e3: "ConnStates ?evs (init\<lparr>pc := Waiting\<rparr>) = ?W1"
    by (simp add: ConnState_eq select_send_eq init_def)
  have s: "sup_step (Inr 3) ?W1 = Some (init\<lparr>pc := Dialing\<rparr>)"
    by (simp add: sup_step_def init_def recv_def)
  have p: "pc (init\<lparr>pc := Waiting\<rparr>) = Waiting" "length (needConnCh (init\<lparr>pc := Waiting\<rparr>)) \<le> 1"
    by (simp_all add: init_def)
  show ?thesis
    using needConnCh_holds_one_signal [of ?W1 "\<lparr>newSet = {||}, needConnCh = [True]\<rparr>" ?evs
        "init\<lparr>pc := Waiting\<rparr>" "Inr 3" "init\<lparr>pc := Dialing\<rparr>" "Inr 4"]
      r e1 e2 e3 s p
    by simp
qed

text \<open>
  Claim C5. In every state of every execution \<open>conns\<close> holds at most one
  connection, and while it holds one the loop of \<open>main\<close> is not dialing and no step
  of the loop starts a dial. The send \<open>conns <- c\<close> blocks exactly while the channel
  holds a connection, and puts \<open>c\<close> on the channel once the listener has taken that
  connection.
\<close>

theorem intake_holds_one_connection:
  assumes "reachable a"
  shows "length (conns a) \<le> 1
    \<and> (conns a \<noteq> [] \<longrightarrow>
         pc a \<noteq> Dialing \<and> (\<forall>r a'. sup_step r a = Some a' \<longrightarrow> pc a' \<noteq> Dialing))
    \<and> (pc b = Sending c \<longrightarrow>
         sup_step r b = (if conns b = [] then Some (b\<lparr>conns := [c], pc := Waiting\<rparr>) else None))"
proof -
  have t: "tokens a \<le> 1" using assms by (rule tokens_reachable)
  have 1: "length (conns a) \<le> 1"
    using t by (simp add: tokens_def)
  have 2: "pc a \<noteq> Dialing \<and> (\<forall>r a'. sup_step r a = Some a' \<longrightarrow> pc a' \<noteq> Dialing)"
    if "conns a \<noteq> []"
  proof -
    have n: "needConnCh a = []" and p: "pc a = Waiting \<or> pc a = Backoff"
      using tokens_le_1_conns [OF t that] by simp_all
    from p show ?thesis
    proof
      assume "pc a = Waiting"
      then show ?thesis by (simp add: sup_step_Waiting_empty n)
    next
      assume "pc a = Backoff"
      then show ?thesis by (auto simp: sup_step_Backoff)
    qed
  qed
  show ?thesis
    using 1 2 sup_step_Sending [of b c r] by blast
qed

theorem intake_holds_one_connection_witness:
  "length (conns (init\<lparr>conns := [5], pc := Waiting\<rparr>)) \<le> 1
   \<and> conns (init\<lparr>conns := [5], pc := Waiting\<rparr>) \<noteq> []
   \<and> pc (init\<lparr>conns := [5], pc := Waiting\<rparr>) \<noteq> Dialing
   \<and> sup_step (Inr 6) (init\<lparr>conns := [5], pc := Waiting\<rparr>) = None
   \<and> pc (init\<lparr>conns := [5], pc := Sending 6\<rparr>) = Sending 6
   \<and> sup_step (Inr 6) (init\<lparr>conns := [5], pc := Sending 6\<rparr>) = None
   \<and> sup_step (Inr 6) (init\<lparr>pc := Sending 6\<rparr>) = Some (init\<lparr>conns := [6], pc := Waiting\<rparr>)"
proof -
  let ?W1 = "init\<lparr>needConnCh := [True], pc := Waiting\<rparr>"
  let ?D1 = "init\<lparr>pc := Dialing\<rparr>"
  let ?S1 = "init\<lparr>pc := Sending 5\<rparr>"
  let ?X = "init\<lparr>conns := [5], pc := Waiting\<rparr>"
  have 1: "sup_step (Inr 5) init = Some ?W1"
    by (simp add: sup_step_def init_def send_def)
  have 2: "sup_step (Inr 5) ?W1 = Some ?D1"
    by (simp add: sup_step_def init_def recv_def)
  have 3: "sup_step (Inr 5) ?D1 = Some ?S1"
    by (simp add: sup_step_def init_def)
  have 4: "sup_step (Inr 5) ?S1 = Some ?X"
    by (simp add: sup_step_def init_def send_def)
  have r: "reachable ?X"
    using reachable_init 1 2 3 4 by (blast intro: reachable_sup)
  have n: "sup_step (Inr 6) ?X = None"
    by (simp add: sup_step_def init_def recv_def)
  show ?thesis
    using intake_holds_one_connection [OF r, of "init\<lparr>conns := [5], pc := Sending 6\<rparr>" 6 "Inr 6"]
      intake_holds_one_connection [OF r, of "init\<lparr>pc := Sending 6\<rparr>" 6 "Inr 6"] n
    by (simp add: init_def)
qed

text \<open>
  Claim C6. In every execution of the loop of \<open>main\<close>, whatever the other goroutines
  do, \<open>lastErr\<close> is the text of the last \<open>Connect failure\<close> line logged, once there is
  one, and a failed dial logs its text if and only if no line has been logged yet or
  the text differs from the last one logged. The text of an error of \<open>net.Dial\<close> is
  not empty.
\<close>

theorem connect_failure_logged_when_changed:
  "loop_run a \<longrightarrow>
     (logged a \<noteq> [] \<longrightarrow> lastErr a = last (logged a))
     \<and> (pc a = Dialing \<and> e \<noteq> [] \<longrightarrow>
          sup_step (Inl e) a =
            Some (a\<lparr>logged := (if logged a = [] \<or> e \<noteq> last (logged a)
                                 then logged a @ [e] else logged a),
                    lastErr := e, pc := Backoff\<rparr>))"
proof
  assume "loop_run a"
  then have i: "if logged a = [] then lastErr a = [] else lastErr a = last (logged a)"
    by (rule logged_loop_run)
  have "sup_step (Inl e) a =
            Some (a\<lparr>logged := (if logged a = [] \<or> e \<noteq> last (logged a)
                                 then logged a @ [e] else logged a),
                    lastErr := e, pc := Backoff\<rparr>)"
    if "pc a = Dialing" "e \<noteq> []"
    using that i by (cases "logged a = []") (simp_all add: sup_step_def)
  then show "(logged a \<noteq> [] \<longrightarrow> lastErr a = last (logged a))
     \<and> (pc a = Dialing \<and> e \<noteq> [] \<longrightarrow>
          sup_step (Inl e) a =
            Some (a\<lparr>logged := (if logged a = [] \<or> e \<noteq> last (logged a)
                                 then logged a @ [e] else logged a),
                    lastErr := e, pc := Backoff\<rparr>))"
    using i by auto
qed

theorem connect_failure_logged_when_changed_witness:
  "lastErr (init\<lparr>lastErr := ''refused'', logged := [''refused''], pc := Dialing\<rparr>)
     = last (logged (init\<lparr>lastErr := ''refused'', logged := [''refused''], pc := Dialing\<rparr>))
   \<and> sup_step (Inl ''refused'') (init\<lparr>lastErr := ''refused'', logged := [''refused''], pc := Dialing\<rparr>)
     = Some (init\<lparr>lastErr := ''refused'', logged := [''refused''], pc := Backoff\<rparr>)
   \<and> sup_step (Inl ''timeout'') (init\<lparr>lastErr := ''refused'', logged := [''refused''], pc := Dialing\<rparr>)
     = Some (init\<lparr>lastErr := ''timeout'', logged := [''refused'', ''timeout''], pc := Backoff\<rparr>)
   \<and> sup_step (Inl ''refused'') (init\<lparr>pc := Dialing\<rparr>)
     = Some (init\<lparr>lastErr := ''refused'', logged := [''refused''], pc := Backoff\<rparr>)"
proof -
  let ?e = "''refused''"
  let ?W1 = "init\<lparr>needConnCh := [True], pc := Waiting\<rparr>"
  let ?D1 = "init\<lparr>pc := Dialing\<rparr>"
  let ?B1 = "init\<lparr>lastErr := ?e, logged := [?e], pc := Backoff\<rparr>"
  let ?W2 = "init\<lparr>lastErr := ?e, logged := [?e], pc := Waiting\<rparr>"
  let ?W3 = "init\<lparr>needConnCh := [True], lastErr := ?e, logged := [?e], pc := Waiting\<rparr>"
  let ?D2 = "init\<lparr>lastErr := ?e, logged := [?e], pc := Dialing\<rparr>"
  have 1: "sup_step (Inl ?e) init = Some ?W1"
    by (simp add: sup_step_def init_def send_def)
  have 2: "sup_step (Inl ?e) ?W1 = Some ?D1"
    by (simp add: sup_step_def init_def recv_def)
  have 3: "sup_step (Inl ?e) ?D1 = Some ?B1"
    by (simp add: sup_step_def init_def)
  have 4: "sup_step (Inl ?e) ?B1 = Some ?W2"
    by (simp add: sup_step_def init_def)
  have 5: "?W3 = ?W2\<lparr>newSet := {||}, needConnCh := [True], conns := [], srv := Accepting\<rparr>"
    by (simp add: init_def)
  have 6: "sup_step (Inl ?e) ?W3 = Some ?D2"
    by (simp add: sup_step_def init_def recv_def)
  have d1: "loop_run ?D1"
    using loop_run.start 1 2 by (blast intro: loop_run.loop)
  then have "loop_run ?W2"
    using 3 4 by (blast intro: loop_run.loop)
  then have "loop_run ?W3"
    unfolding 5 by (rule loop_run.others)
  then have d2: "loop_run ?D2"
    using 6 by (blast intro: loop_run.loop)
  show ?thesis
    using connect_failure_logged_when_changed [of ?D2 ?e]
      connect_failure_logged_when_changed [of ?D2 "''timeout''"]
      connect_failure_logged_when_changed [of ?D1 ?e] d1 d2
    by (simp add: init_def)
qed

end
